theory Spec2Isabelle
  imports Complex_Main
begin

section \<open>Values that cross the JSON boundary\<close>

text \<open>
  \<^verbatim>\<open>handleSend\<close> receives \<^verbatim>\<open>parsed\<close> from \<^verbatim>\<open>JSON.parse\<close> and reads the descriptors
  as \<^verbatim>\<open>n: any\<close>.  Nothing is validated before the fields are stored in a node, so the
  fields \<^verbatim>\<open>name\<close>, \<^verbatim>\<open>type\<close>, \<^verbatim>\<open>inputs\<close> and \<^verbatim>\<open>outputs\<close> of a stored node hold whatever
  value the JSON had.  A JSON number is kept as its real value; the program does no
  arithmetic on it.
\<close>

datatype jsval =
    JUndefined
  | JNull
  | JBool bool
  | JNum real
  | JStr string
  | JArr "jsval list"
  | JObj "(string \<times> jsval) list"

datatype js_error = TypeError

text \<open>JavaScript truthiness, as used by \<^verbatim>\<open>||\<close> and \<^verbatim>\<open>&&\<close>.\<close>

fun truthy :: "jsval \<Rightarrow> bool" where
  "truthy JUndefined = False"
| "truthy JNull = False"
| "truthy (JBool b) = b"
| "truthy (JNum r) = (r \<noteq> 0)"
| "truthy (JStr s) = (s \<noteq> [])"
| "truthy (JArr _) = True"
| "truthy (JObj _) = True"

text \<open>\<^verbatim>\<open>a || b\<close>\<close>

definition js_or :: "jsval \<Rightarrow> jsval \<Rightarrow> jsval" where
  "js_or a b = (if truthy a then a else b)"

text \<open>
  Property read \<^verbatim>\<open>v.k\<close> for the property names the program reads (\<^verbatim>\<open>nodes\<close>,
  \<^verbatim>\<open>name\<close>, \<^verbatim>\<open>type\<close>, \<^verbatim>\<open>inputs\<close>, \<^verbatim>\<open>outputs\<close>): reading from \<^verbatim>\<open>null\<close> or
  \<^verbatim>\<open>undefined\<close> throws, an object yields the value of its last entry with that key
  (or \<^verbatim>\<open>undefined\<close>), and every other value yields \<^verbatim>\<open>undefined\<close>.
\<close>

fun getProp :: "jsval \<Rightarrow> string \<Rightarrow> js_error + jsval" where
  "getProp JUndefined k = Inl TypeError"
| "getProp JNull k = Inl TypeError"
| "getProp (JObj kvs) k = Inr (case map_of (rev kvs) k of None \<Rightarrow> JUndefined | Some v \<Rightarrow> v)"
| "getProp v k = Inr JUndefined"

text \<open>\<^verbatim>\<open>Array.isArray\<close>\<close>

fun isArray :: "jsval \<Rightarrow> bool" where
  "isArray (JArr _) = True"
| "isArray v = False"

fun elems :: "jsval \<Rightarrow> jsval list" where
  "elems (JArr vs) = vs"
| "elems v = []"

section \<open>Decimal rendering of integers in template literals\<close>

definition digitChar :: "nat \<Rightarrow> char" where
  "digitChar d = ''0123456789'' ! d"

fun showNat :: "nat \<Rightarrow> string" where
  "showNat n = (if n < 10 then [digitChar n] else showNat (n div 10) @ [digitChar (n mod 10)])"

declare showNat.simps [simp del]

definition showInt :: "int \<Rightarrow> string" where
  "showInt i = (if i < 0 then CHR ''-'' # showNat (nat (- i)) else showNat (nat i))"

section \<open>Numbers: IEEE 754 binary64\<close>

text \<open>
  A JavaScript number is a double.  A finite double is held as its real value; the two
  zeros are identified, since the program never divides and a template literal renders
  \<^verbatim>\<open>-0\<close> as \<^verbatim>\<open>0\<close>.
\<close>

datatype double = Fin real | PosInf | NegInf | NaN

text \<open>
  Rounding to nearest, ties to even.  Every finite double is a multiple of \<open>2 ^ -1074\<close>:
  \<open>m * 2 ^ s * 2 ^ -1074\<close> with \<open>m < 2 ^ 53\<close>.  For a real of magnitude \<open>y * 2 ^ -1074\<close>,
  \<open>shiftOf\<close> of the integer part of \<open>y\<close> is the exponent \<open>s\<close> of the spacing of the doubles
  around it (\<open>0\<close> in the subnormal range and in the first normal binade), and the magnitude
  is rounded to the nearest multiple of that spacing.  A result of \<open>2 ^ 1024\<close> or more
  overflows to an infinity.
\<close>

fun shiftOf :: "nat \<Rightarrow> nat" where
  "shiftOf n = (if n < 2 ^ 53 then 0 else Suc (shiftOf (n div 2)))"

declare shiftOf.simps [simp del]

definition roundEven :: "real \<Rightarrow> int" where
  "roundEven t =
     (let f = \<lfloor>t\<rfloor>; d = t - of_int f
      in if d < 1 / 2 then f
         else if 1 / 2 < d then f + 1
         else if even f then f else f + 1)"

definition fl :: "real \<Rightarrow> double" where
  "fl x =
     (let y = \<bar>x\<bar> * 2 ^ 1074;
          s = shiftOf (nat \<lfloor>y\<rfloor>);
          m = roundEven (y / 2 ^ s);
          r = of_int m * 2 ^ s / 2 ^ 1074
      in if 2 ^ 1024 \<le> r then (if x < 0 then NegInf else PosInf)
         else Fin (if x < 0 then - r else r))"

text \<open>The operators \<^verbatim>\<open>+\<close>, \<^verbatim>\<open>-\<close>, \<^verbatim>\<open>*\<close> and \<^verbatim>\<open>Math.abs\<close> on numbers.\<close>

fun dneg :: "double \<Rightarrow> double" where
  "dneg (Fin a) = Fin (- a)"
| "dneg PosInf = NegInf"
| "dneg NegInf = PosInf"
| "dneg NaN = NaN"

fun dadd :: "double \<Rightarrow> double \<Rightarrow> double" where
  "dadd (Fin a) (Fin b) = fl (a + b)"
| "dadd NaN b = NaN"
| "dadd a NaN = NaN"
| "dadd PosInf NegInf = NaN"
| "dadd NegInf PosInf = NaN"
| "dadd PosInf b = PosInf"
| "dadd NegInf b = NegInf"
| "dadd a PosInf = PosInf"
| "dadd a NegInf = NegInf"

definition dsub :: "double \<Rightarrow> double \<Rightarrow> double" where
  "dsub a b = dadd a (dneg b)"

fun dmul :: "double \<Rightarrow> double \<Rightarrow> double" where
  "dmul (Fin a) (Fin b) = fl (a * b)"
| "dmul NaN b = NaN"
| "dmul a NaN = NaN"
| "dmul (Fin a) PosInf = (if a = 0 then NaN else if 0 < a then PosInf else NegInf)"
| "dmul (Fin a) NegInf = (if a = 0 then NaN else if 0 < a then NegInf else PosInf)"
| "dmul PosInf (Fin b) = (if b = 0 then NaN else if 0 < b then PosInf else NegInf)"
| "dmul NegInf (Fin b) = (if b = 0 then NaN else if 0 < b then NegInf else PosInf)"
| "dmul PosInf PosInf = PosInf"
| "dmul PosInf NegInf = NegInf"
| "dmul NegInf PosInf = NegInf"
| "dmul NegInf NegInf = PosInf"

fun dabs :: "double \<Rightarrow> double" where
  "dabs (Fin a) = Fin \<bar>a\<bar>"
| "dabs PosInf = PosInf"
| "dabs NegInf = PosInf"
| "dabs NaN = NaN"

section \<open>Data model (types.ts)\<close>

text \<open>
  The origin of a node is a finite double, held as its real value.  The coordinates of a
  pending draw are results of the double arithmetic.
\<close>

record BlueprintNode =
  n_id :: string
  n_name :: jsval
  n_type :: jsval
  n_x :: real
  n_y :: real
  n_inputs :: jsval
  n_outputs :: jsval

record Connection =
  c_id :: string
  fromNodeId :: string
  fromPin :: string
  toNodeId :: string
  toPin :: string

record DrawingConnection =
  startNodeId :: string
  startPin :: string
  dc_isInput :: bool
  startX :: double
  startY :: double
  currX :: double
  currY :: double

text \<open>
  The state shared by \<^verbatim>\<open>App\<close> (\<^verbatim>\<open>nodes\<close>, \<^verbatim>\<open>connections\<close>) and held by
  \<^verbatim>\<open>BlueprintCanvas\<close> (\<^verbatim>\<open>selectedNode\<close>, \<^verbatim>\<open>dragOffset\<close>, \<^verbatim>\<open>drawingConnection\<close>).
  Every handler runs against the state committed by the handler before it.
\<close>

record State =
  nodes :: "BlueprintNode list"
  connections :: "Connection list"
  selectedNode :: "string option"
  dragOffset :: "(real \<times> real) option"
  drawingConnection :: "DrawingConnection option"

definition initState :: State where
  "initState = \<lparr> nodes = [], connections = [], selectedNode = None,
                  dragOffset = None, drawingConnection = None \<rparr>"

section \<open>Layout geometry (BlueprintCanvas)\<close>

definition NODE_WIDTH :: double where "NODE_WIDTH = Fin 160"
definition HEADER_HEIGHT :: double where "HEADER_HEIGHT = Fin 28"
definition BODY_PADDING :: double where "BODY_PADDING = Fin 8"
definition PIN_ROW_HEIGHT :: double where "PIN_ROW_HEIGHT = Fin 20"
definition PIN_GAP :: double where "PIN_GAP = Fin 4"
definition PIN_OFFSET_Y :: double where "PIN_OFFSET_Y = Fin 10"
definition PIN_OFFSET_X :: double where "PIN_OFFSET_X = Fin 12"

text \<open>Every \<^verbatim>\<open>+\<close>, \<^verbatim>\<open>-\<close> and \<^verbatim>\<open>*\<close> of the source is the double operation, in the source's order.\<close>

definition getNodePinPos :: "BlueprintNode \<Rightarrow> double \<Rightarrow> bool \<Rightarrow> double \<times> double" where
  "getNodePinPos node pinIndex isInput =
     (let x = (if isInput then dadd (Fin (n_x node)) PIN_OFFSET_X
               else dsub (dadd (Fin (n_x node)) NODE_WIDTH) PIN_OFFSET_X);
          y = dadd (dadd (dadd (dadd (Fin (n_y node)) HEADER_HEIGHT) BODY_PADDING)
                      (dmul pinIndex (dadd PIN_ROW_HEIGHT PIN_GAP)))
                PIN_OFFSET_Y
      in (x, y))"

text \<open>
  \<^verbatim>\<open>getPathD\<close> builds an SVG path string with a template literal.  The rendering of a
  number inside the template is the language's own and is taken as the parameter
  \<open>numStr\<close>.
\<close>

definition getPathD :: "(double \<Rightarrow> string) \<Rightarrow> double \<Rightarrow> double \<Rightarrow> double \<Rightarrow> double \<Rightarrow> string" where
  "getPathD numStr x1 y1 x2 y2 =
     (let dist = dabs (dsub x2 x1);
          cp1x = dadd x1 (dmul dist (Fin 0.5));
          cp2x = dsub x2 (dmul dist (Fin 0.5))
      in ''M '' @ numStr x1 @ '' '' @ numStr y1 @ '' C ''
           @ numStr cp1x @ '' '' @ numStr y1 @ '', ''
           @ numStr cp2x @ '' '' @ numStr y2 @ '', ''
           @ numStr x2 @ '' '' @ numStr y2)"

section \<open>Graph surface: the handlers of BlueprintCanvas\<close>

text \<open>
  The drag offset and the origin of a dragged node are differences of pointer coordinates
  and origins.  They are kept as exact differences: on the integer pixel coordinates of the
  sessions below the double subtraction is exact as well.
\<close>

definition handleNodeMouseDown :: "real \<Rightarrow> real \<Rightarrow> string \<Rightarrow> State \<Rightarrow> State" where
  "handleNodeMouseDown clientX clientY ident s =
     (case find (\<lambda>n. n_id n = ident) (nodes s) of
        None \<Rightarrow> s
      | Some node \<Rightarrow>
          s\<lparr> selectedNode := Some ident,
             dragOffset := Some (clientX - n_x node, clientY - n_y node) \<rparr>)"

definition handlePinMouseDown :: "string \<Rightarrow> string \<Rightarrow> bool \<Rightarrow> nat \<Rightarrow> State \<Rightarrow> State" where
  "handlePinMouseDown nodeId pinName isInput index s =
     (case find (\<lambda>n. n_id n = nodeId) (nodes s) of
        None \<Rightarrow> s
      | Some node \<Rightarrow>
          (case getNodePinPos node (Fin (real index)) isInput of
             (x, y) \<Rightarrow>
               s\<lparr> drawingConnection :=
                    Some \<lparr> startNodeId = nodeId, startPin = pinName, dc_isInput = isInput,
                           startX = x, startY = y, currX = x, currY = y \<rparr> \<rparr>))"

text \<open>The connection built by \<^verbatim>\<open>handlePinMouseUp\<close>; \<open>now\<close> is the value of \<^verbatim>\<open>Date.now()\<close>.\<close>

definition newConnection :: "int \<Rightarrow> DrawingConnection \<Rightarrow> string \<Rightarrow> string \<Rightarrow> bool \<Rightarrow> Connection" where
  "newConnection now dc nodeId pinName isInput =
     \<lparr> c_id = ''conn-'' @ showInt now,
       fromNodeId = (if isInput then startNodeId dc else nodeId),
       fromPin = (if isInput then startPin dc else pinName),
       toNodeId = (if isInput then nodeId else startNodeId dc),
       toPin = (if isInput then pinName else startPin dc) \<rparr>"

text \<open>The test of \<^verbatim>\<open>connections.some(...)\<close>.\<close>

definition sameEnds :: "Connection \<Rightarrow> Connection \<Rightarrow> bool" where
  "sameEnds nc c =
     (fromNodeId c = fromNodeId nc \<and> fromPin c = fromPin nc \<and>
      toNodeId c = toNodeId nc \<and> toPin c = toPin nc)"

text \<open>
  A pointer-up over a pin glyph runs this handler only: it stops the propagation of the
  event, so the canvas handler \<^verbatim>\<open>handleMouseUp\<close> does not run for it.
\<close>

definition handlePinMouseUp :: "int \<Rightarrow> string \<Rightarrow> string \<Rightarrow> bool \<Rightarrow> State \<Rightarrow> State" where
  "handlePinMouseUp now nodeId pinName isInput s =
     (case drawingConnection s of
        None \<Rightarrow> s
      | Some dc \<Rightarrow>
          if startNodeId dc = nodeId then s\<lparr> drawingConnection := None \<rparr>
          else if dc_isInput dc = isInput then s\<lparr> drawingConnection := None \<rparr>
          else
            (let nc = newConnection now dc nodeId pinName isInput;
                 exists = list_ex (sameEnds nc) (connections s);
                 s' = (if \<not> exists then s\<lparr> connections := connections s @ [nc] \<rparr> else s)
             in s'\<lparr> drawingConnection := None \<rparr>))"

text \<open>
  \<^verbatim>\<open>selectedNode && dragOffset\<close>: a string is truthy when it is not empty.  \<open>rect\<close> is
  the top-left corner of the canvas when \<^verbatim>\<open>canvasRef.current\<close> is set.  The pointer
  coordinates of an event and the corner of the canvas are finite doubles.
\<close>

definition handleMouseMove :: "real \<Rightarrow> real \<Rightarrow> (real \<times> real) option \<Rightarrow> State \<Rightarrow> State" where
  "handleMouseMove clientX clientY rect s =
     (case (selectedNode s, dragOffset s) of
        (Some sel, Some (ox, oy)) \<Rightarrow>
          if sel \<noteq> [] then
            s\<lparr> nodes := map (\<lambda>n. if n_id n = sel
                                   then n\<lparr> n_x := clientX - ox, n_y := clientY - oy \<rparr>
                                   else n) (nodes s) \<rparr>
          else
            (case (drawingConnection s, rect) of
               (Some dc, Some (rectLeft, rectTop)) \<Rightarrow>
                 s\<lparr> drawingConnection :=
                      Some (dc\<lparr> currX := dsub (Fin clientX) (Fin rectLeft),
                           currY := dsub (Fin clientY) (Fin rectTop) \<rparr>) \<rparr>
             | _ \<Rightarrow> s)
      | _ \<Rightarrow>
          (case (drawingConnection s, rect) of
             (Some dc, Some (rectLeft, rectTop)) \<Rightarrow>
               s\<lparr> drawingConnection :=
                    Some (dc\<lparr> currX := dsub (Fin clientX) (Fin rectLeft),
                           currY := dsub (Fin clientY) (Fin rectTop) \<rparr>) \<rparr>
           | _ \<Rightarrow> s))"

definition handleMouseUp :: "State \<Rightarrow> State" where
  "handleMouseUp s = s\<lparr> selectedNode := None, dragOffset := None, drawingConnection := None \<rparr>"

definition deleteNode :: "string \<Rightarrow> State \<Rightarrow> State" where
  "deleteNode ident s =
     s\<lparr> nodes := filter (\<lambda>n. n_id n \<noteq> ident) (nodes s),
        connections := filter (\<lambda>c. fromNodeId c \<noteq> ident \<and> toNodeId c \<noteq> ident) (connections s) \<rparr>"

section \<open>Node injection (handleSend of ChatInterface)\<close>

text \<open>
  The callback of \<^verbatim>\<open>parsed.nodes.map((n, idx) => ...)\<close>.  \<^verbatim>\<open>Date.now()\<close> is read anew
  in every call: \<open>clock idx\<close> is the value read in the call for index \<open>idx\<close>.  \<open>idx\<close> is
  an array index, so \<^verbatim>\<open>100 + (idx * 250)\<close> and \<^verbatim>\<open>100 + (idx % 2) * 100\<close> are integers
  that the double arithmetic computes exactly.
\<close>

definition mkNode :: "(nat \<Rightarrow> int) \<Rightarrow> jsval \<Rightarrow> nat \<Rightarrow> js_error + BlueprintNode" where
  "mkNode clock n idx =
     (case getProp n ''name'' of
        Inl e \<Rightarrow> Inl e
      | Inr nm \<Rightarrow>
     (case getProp n ''type'' of
        Inl e \<Rightarrow> Inl e
      | Inr ty \<Rightarrow>
     (case getProp n ''inputs'' of
        Inl e \<Rightarrow> Inl e
      | Inr ins \<Rightarrow>
     (case getProp n ''outputs'' of
        Inl e \<Rightarrow> Inl e
      | Inr outs \<Rightarrow>
          Inr \<lparr> n_id = ''node-'' @ showInt (clock idx) @ ''-'' @ showNat idx,
                n_name = nm,
                n_type = js_or ty (JStr ''function''),
                n_x = 100 + (real idx * 250),
                n_y = 100 + real (idx mod 2) * 100,
                n_inputs = js_or ins (JArr []),
                n_outputs = js_or outs (JArr []) \<rparr>))))"

fun mapNodes :: "(nat \<Rightarrow> int) \<Rightarrow> nat \<Rightarrow> jsval list \<Rightarrow> js_error + BlueprintNode list" where
  "mapNodes clock idx [] = Inr []"
| "mapNodes clock idx (n # ns) =
     (case mkNode clock n idx of
        Inl e \<Rightarrow> Inl e
      | Inr nd \<Rightarrow>
          (case mapNodes clock (Suc idx) ns of
             Inl e \<Rightarrow> Inl e
           | Inr nds \<Rightarrow> Inr (nd # nds)))"

text \<open>
  The body of the inner \<^verbatim>\<open>try\<close> from \<^verbatim>\<open>parsed\<close> on; an exception is caught by the
  \<^verbatim>\<open>catch\<close> before \<^verbatim>\<open>setNodes\<close> is reached and leaves the nodes as they were.
\<close>

definition injectParsed :: "(nat \<Rightarrow> int) \<Rightarrow> jsval \<Rightarrow> BlueprintNode list \<Rightarrow> BlueprintNode list" where
  "injectParsed clock parsed prev =
     (case getProp parsed ''nodes'' of
        Inl e \<Rightarrow> prev
      | Inr ns \<Rightarrow>
          if truthy ns \<and> isArray ns then
            (case mapNodes clock 0 (elems ns) of
               Inl e \<Rightarrow> prev
             | Inr newNodes \<Rightarrow> prev @ newNodes)
          else prev)"

definition handleSend :: "(nat \<Rightarrow> int) \<Rightarrow> jsval \<Rightarrow> State \<Rightarrow> State" where
  "handleSend clock parsed s = s\<lparr> nodes := injectParsed clock parsed (nodes s) \<rparr>"

section \<open>Events and reachable states\<close>

datatype event =
    NodeMouseDown real real string
  | PinMouseDown string string bool nat
  | PinMouseUp int string string bool
  | MouseMove real real "(real \<times> real) option"
  | MouseUp
  | DeleteClick string
  | Inject "nat \<Rightarrow> int" jsval

fun step :: "event \<Rightarrow> State \<Rightarrow> State" where
  "step (NodeMouseDown cx cy ident) s = handleNodeMouseDown cx cy ident s"
| "step (PinMouseDown nodeId pinName isInput index) s = handlePinMouseDown nodeId pinName isInput index s"
| "step (PinMouseUp now nodeId pinName isInput) s = handlePinMouseUp now nodeId pinName isInput s"
| "step (MouseMove cx cy rect) s = handleMouseMove cx cy rect s"
| "step MouseUp s = handleMouseUp s"
| "step (DeleteClick ident) s = deleteNode ident s"
| "step (Inject clock parsed) s = handleSend clock parsed s"

text \<open>Running a sequence of events from a state, first event first.\<close>

fun run :: "event list \<Rightarrow> State \<Rightarrow> State" where
  "run [] s = s"
| "run (e # es) s = run es (step e s)"

inductive reachable :: "State \<Rightarrow> bool" where
  reach_init: "reachable initState"
| reach_step: "reachable s \<Longrightarrow> reachable (step e s)"

text \<open>The tuple that identifies a connection for the duplicate test.\<close>

definition connKey :: "Connection \<Rightarrow> string \<times> string \<times> string \<times> string" where
  "connKey c = (fromNodeId c, fromPin c, toNodeId c, toPin c)"

section \<open>A worked session\<close>

text \<open>
  The scenario of the specification: a batch of descriptors is injected into the empty
  editor (a third descriptor with an empty \<^verbatim>\<open>type\<close> and no \<^verbatim>\<open>inputs\<close> is added to it).
\<close>

definition demoClock :: "nat \<Rightarrow> int" where
  "demoClock idx = 1700000000000"

definition demoBatch :: "jsval list" where
  "demoBatch =
     [JObj [(''name'', JStr ''Event Jump''), (''type'', JStr ''event''),
            (''inputs'', JArr []), (''outputs'', JArr [JStr ''Out''])],
      JObj [(''name'', JStr ''Launch Character''), (''type'', JStr ''function''),
            (''inputs'', JArr [JStr ''In'']), (''outputs'', JArr [])],
      JObj [(''name'', JStr ''Branch''), (''type'', JStr ''''),
            (''outputs'', JArr [JStr ''True'', JStr ''False''])]]"

definition demoParsed :: jsval where
  "demoParsed = JObj [(''nodes'', JArr demoBatch)]"

definition idA :: string where "idA = ''node-1700000000000-0''"
definition idB :: string where "idB = ''node-1700000000000-1''"
definition idC :: string where "idC = ''node-1700000000000-2''"

definition demoInjected :: State where
  "demoInjected = handleSend demoClock demoParsed initState"

text \<open>
  States of that session: a draw pending from the output pin of the first node, a draw
  pending from the input pin of the second, the two nodes connected, a second connection
  drawn from the input end, the first node deleted while the draw from it is pending and the
  pointer then released over the input pin of the second node, and the first node being
  dragged.
\<close>

definition demoPendingOut :: State where
  "demoPendingOut = step (PinMouseDown idA ''Out'' False 0) demoInjected"

definition demoPendingIn :: State where
  "demoPendingIn = step (PinMouseDown idB ''In'' True 0) demoInjected"

definition demoConnected :: State where
  "demoConnected = step (PinMouseUp 1700000005000 idB ''In'' True) demoPendingOut"

definition demoConnAB :: Connection where
  "demoConnAB = \<lparr> c_id = ''conn-1700000005000'', fromNodeId = idA, fromPin = ''Out'',
                  toNodeId = idB, toPin = ''In'' \<rparr>"

definition demoConnected2 :: State where
  "demoConnected2 =
     step (PinMouseUp 1700000009000 idC ''True'' False)
       (step (PinMouseDown idB ''In'' True 0) demoConnected)"

definition demoConnCB :: Connection where
  "demoConnCB = \<lparr> c_id = ''conn-1700000009000'', fromNodeId = idC, fromPin = ''True'',
                  toNodeId = idB, toPin = ''In'' \<rparr>"

definition demoDeleted :: State where
  "demoDeleted = step (DeleteClick idA) demoPendingOut"

definition demoDangling :: State where
  "demoDangling = step (PinMouseUp 1700000005000 idB ''In'' True) demoDeleted"

definition demoDragging :: State where
  "demoDragging = step (MouseMove 412 266 (Some (0, 0))) (step (NodeMouseDown 150 120 idA) demoInjected)"

section \<open>Rounding: exact on the integers below \<open>2 ^ 53\<close>\<close>

lemma shiftOf_small: "n < 2 ^ 53 \<Longrightarrow> shiftOf n = 0"
  by (subst shiftOf.simps) simp

lemma shiftOf_eq: "2 ^ 52 * 2 ^ s \<le> n \<Longrightarrow> n < 2 ^ 53 * 2 ^ s \<Longrightarrow> shiftOf n = s"
proof (induction s arbitrary: n)
  case 0
  then show ?case by (simp add: shiftOf_small)
next
  case (Suc s)
  from Suc.prems have b: "2 ^ 52 * 2 ^ s \<le> n div 2" "n div 2 < 2 ^ 53 * 2 ^ s" by simp_all
  have "(2::nat) ^ 52 * 1 \<le> 2 ^ 52 * 2 ^ s" by (rule mult_le_mono2) simp
  then have "(2::nat) ^ 52 \<le> 2 ^ 52 * 2 ^ s" by (simp only: mult_1_right)
  from this b(1) have "(2::nat) ^ 52 \<le> n div 2" by (rule order_trans)
  then have "\<not> n < 2 ^ 53" by simp
  moreover from b have "shiftOf (n div 2) = s" by (rule Suc.IH)
  ultimately show ?case by (subst shiftOf.simps) simp
qed

lemma shiftOf_le: "n < 2 ^ 53 * 2 ^ t \<Longrightarrow> shiftOf n \<le> t"
proof (induction t arbitrary: n)
  case 0
  then show ?case by (simp add: shiftOf_small)
next
  case (Suc t)
  show ?case
  proof (cases "n < 2 ^ 53")
    case True
    then show ?thesis by (simp add: shiftOf_small)
  next
    case False
    from Suc.prems have "n div 2 < 2 ^ 53 * 2 ^ t" by simp
    then have "shiftOf (n div 2) \<le> t" by (rule Suc.IH)
    with False show ?thesis by (subst shiftOf.simps) simp
  qed
qed

lemma roundEven_of_int: "roundEven (of_int k) = k"
  by (simp add: roundEven_def)

lemma round_scaled_nat:
  assumes "n < 2 ^ 53"
  shows "real_of_int (roundEven (real n * 2 ^ E / 2 ^ shiftOf (nat \<lfloor>real n * 2 ^ E\<rfloor>)))
           * 2 ^ shiftOf (nat \<lfloor>real n * 2 ^ E\<rfloor>) / 2 ^ E = real n"
proof -
  have "real n * 2 ^ E = real (n * 2 ^ E)" by simp
  then have fy: "nat \<lfloor>real n * 2 ^ E\<rfloor> = n * 2 ^ E" by (simp only: floor_of_nat nat_int)
  define s where "s = shiftOf (n * 2 ^ E)"
  have "n * 2 ^ E < 2 ^ 53 * 2 ^ E" using assms by simp
  then have sle: "s \<le> E" unfolding s_def by (rule shiftOf_le)
  then have pw: "(2::real) ^ E = 2 ^ (E - s) * 2 ^ s" by (simp flip: power_add)
  have "real n * 2 ^ E / 2 ^ s = real_of_int (int (n * 2 ^ (E - s)))"
    by (simp add: pw)
  then have m: "roundEven (real n * 2 ^ E / 2 ^ s) = int (n * 2 ^ (E - s))"
    by (simp only: roundEven_of_int)
  have "real_of_int (int (n * 2 ^ (E - s))) * 2 ^ s / 2 ^ E = real n"
    by (simp add: pw)
  then show ?thesis unfolding fy s_def [symmetric] m .
qed

lemma fl_of_int:
  assumes "\<bar>k\<bar> < 2 ^ 53"
  shows "fl (of_int k) = Fin (of_int k)"
proof -
  define n where "n = nat \<bar>k\<bar>"
  have nk: "\<bar>real_of_int k\<bar> = real n" by (simp add: n_def)
  have nb: "n < 2 ^ 53" using assms by (simp add: n_def nat_less_iff)
  have lt: "\<not> (2::real) ^ 1024 \<le> real n"
  proof -
    have "real n < 2 ^ 53" using nb by (metis of_nat_less_iff of_nat_numeral of_nat_power)
    also have "(2::real) ^ 53 \<le> 2 ^ 1024" by (rule power_increasing) simp_all
    finally show ?thesis by simp
  qed
  have "fl (of_int k) = Fin (if real_of_int k < 0 then - real n else real n)"
    unfolding fl_def Let_def nk round_scaled_nat [OF nb] using lt by (simp only: if_False)
  also have "(if real_of_int k < 0 then - real n else real n) = of_int k"
    by (simp add: n_def)
  finally show ?thesis .
qed

lemma fl_numeral: "numeral w < (2::int) ^ 53 \<Longrightarrow> fl (numeral w) = Fin (numeral w)"
  using fl_of_int [of "numeral w"] by simp

lemma fl_zero: "fl 0 = Fin 0"
  using fl_of_int [of 0] by simp

lemma fl_at:
  assumes "2 ^ 52 * 2 ^ s \<le> nat \<lfloor>\<bar>x\<bar> * 2 ^ 1074\<rfloor>" "nat \<lfloor>\<bar>x\<bar> * 2 ^ 1074\<rfloor> < 2 ^ 53 * 2 ^ s"
  shows "fl x =
     (let r = of_int (roundEven (\<bar>x\<bar> * 2 ^ 1074 / 2 ^ s)) * 2 ^ s / 2 ^ 1074
      in if 2 ^ 1024 \<le> r then (if x < 0 then NegInf else PosInf)
         else Fin (if x < 0 then - r else r))"
  unfolding fl_def Let_def shiftOf_eq [OF assms] ..

section \<open>The rounding at work\<close>

lemma fl_examples:
  "fl (5764607523034235 / 2 ^ 59 + 160) = Fin (703731422241751 / 2 ^ 42)"
  "fl (703731422241751 / 2 ^ 42 + - 12) = Fin (650954864108503 / 2 ^ 42)"
  "fl (5764607523034235 / 2 ^ 59 + 28) = Fin (7884114097665475 / 2 ^ 48)"
  "fl (7884114097665475 / 2 ^ 48 + 8) = Fin (2533978477837681 / 2 ^ 46)"
  "fl (20 + 4) = Fin 24"
  "fl (0 * 24) = Fin 0"
  "fl (2533978477837681 / 2 ^ 46 + 0) = Fin (2533978477837681 / 2 ^ 46)"
  "fl (2533978477837681 / 2 ^ 46 + 10) = Fin (3237665919614321 / 2 ^ 46)"
  "fl (3152519739159347 / 2 ^ 52 + - (3602879701896397 / 2 ^ 55)) = Fin (5404319552844595 / 2 ^ 53)"
  "fl (\<bar>5404319552844595 / 2 ^ 53\<bar> * 0.5) = Fin (5404319552844595 / 2 ^ 54)"
  "fl (3602879701896397 / 2 ^ 55 + 5404319552844595 / 2 ^ 54) = Fin (3602879701896397 / 2 ^ 53)"
  "fl (3152519739159347 / 2 ^ 52 + - (5404319552844595 / 2 ^ 54)) = Fin (7205759403792793 / 2 ^ 54)"
  subgoal by (subst fl_at [of 1029]) (simp_all add: roundEven_def Let_def)
  subgoal by (subst fl_at [of 1029]) (simp_all add: roundEven_def Let_def)
  subgoal by (subst fl_at [of 1026]) (simp_all add: roundEven_def Let_def)
  subgoal by (subst fl_at [of 1027]) (simp_all add: roundEven_def Let_def)
  subgoal by (simp add: fl_numeral)
  subgoal by (simp add: fl_zero)
  subgoal by (subst fl_at [of 1027]) (simp_all add: roundEven_def Let_def)
  subgoal by (subst fl_at [of 1027]) (simp_all add: roundEven_def Let_def)
  subgoal by (subst fl_at [of 1021]) (simp_all add: roundEven_def Let_def)
  subgoal by (subst fl_at [of 1020]) (simp_all add: roundEven_def Let_def)
  subgoal by (subst fl_at [of 1020]) (simp_all add: roundEven_def Let_def)
  subgoal by (subst fl_at [of 1020]) (simp_all add: roundEven_def Let_def)
  done

text \<open>
  A node whose origin is the double nearest to 0.01 in both coordinates: the output pin of
  row 0 is at the doubles printed as 148.01 and 46.010000000000005, and the second is not the
  exact sum \<open>0.01 + 46\<close>.
\<close>

lemma getNodePinPos_rounds:
  "getNodePinPos \<lparr> n_id = a, n_name = b, n_type = c,
                    n_x = 5764607523034235 / 2 ^ 59, n_y = 5764607523034235 / 2 ^ 59,
                    n_inputs = d, n_outputs = e \<rparr> (Fin 0) False
     = (Fin (650954864108503 / 2 ^ 42), Fin (3237665919614321 / 2 ^ 46))"
  by (simp only: getNodePinPos_def Let_def NODE_WIDTH_def HEADER_HEIGHT_def BODY_PADDING_def
      PIN_ROW_HEIGHT_def PIN_GAP_def PIN_OFFSET_X_def PIN_OFFSET_Y_def dsub_def
      BlueprintNode.simps dadd.simps dneg.simps dmul.simps fl_examples if_False)

lemma getNodePinPos_rounds_differs:
  "(3237665919614321 / 2 ^ 46 :: real) \<noteq> 5764607523034235 / 2 ^ 59 + 28 + 8 + 0 * (20 + 4) + 20 / 2"
  by simp

text \<open>
  From the double nearest to 0.1 to the double nearest to 0.7: the two control points are
  at the doubles printed as 0.4 and 0.39999999999999997.
\<close>

lemma getPathD_rounds:
  "getPathD numStr (Fin (3602879701896397 / 2 ^ 55)) y1 (Fin (3152519739159347 / 2 ^ 52)) y2 =
     ''M '' @ numStr (Fin (3602879701896397 / 2 ^ 55)) @ '' '' @ numStr y1 @ '' C ''
       @ numStr (Fin (3602879701896397 / 2 ^ 53)) @ '' '' @ numStr y1 @ '', ''
       @ numStr (Fin (7205759403792793 / 2 ^ 54)) @ '' '' @ numStr y2 @ '', ''
       @ numStr (Fin (3152519739159347 / 2 ^ 52)) @ '' '' @ numStr y2"
  by (simp only: getPathD_def Let_def dsub_def dadd.simps dneg.simps dmul.simps dabs.simps
      fl_examples)

lemma getPathD_rounds_differs:
  "(3602879701896397 / 2 ^ 53 :: real) \<noteq> 7205759403792793 / 2 ^ 54"
  by simp

section \<open>Decimal rendering: digits only, and injective\<close>

lemma showNat_small: "n < 10 \<Longrightarrow> showNat n = [digitChar n]"
  by (subst showNat.simps) simp

lemma showNat_large: "\<not> n < 10 \<Longrightarrow> showNat n = showNat (n div 10) @ [digitChar (n mod 10)]"
  by (subst showNat.simps) simp

lemma digit_cases:
  "d < 10 \<Longrightarrow> d = 0 \<or> d = 1 \<or> d = 2 \<or> d = 3 \<or> d = 4 \<or> d = 5 \<or> d = 6 \<or> d = 7 \<or> d = 8 \<or> d = (9::nat)"
  by arith

lemma digitChar_neq_minus: "d < 10 \<Longrightarrow> digitChar d \<noteq> CHR ''-''"
  by (drule digit_cases) (auto simp: digitChar_def)

lemma digitChar_index:
  "d < 10 \<Longrightarrow> length (takeWhile (\<lambda>x. x \<noteq> digitChar d) ''0123456789'') = d"
  by (drule digit_cases) (auto simp: digitChar_def)

lemma digitChar_inj: "a < 10 \<Longrightarrow> b < 10 \<Longrightarrow> digitChar a = digitChar b \<Longrightarrow> a = b"
  by (metis digitChar_index)

lemma showNat_no_minus: "CHR ''-'' \<notin> set (showNat n)"
proof (induction n rule: showNat.induct)
  case (1 n)
  show ?case
  proof (cases "n < 10")
    case True
    then show ?thesis using digitChar_neq_minus [of n] by (simp add: showNat_small)
  next
    case False
    have "n mod 10 < 10" by simp
    then have "digitChar (n mod 10) \<noteq> CHR ''-''" by (rule digitChar_neq_minus)
    with False 1 show ?thesis by (simp add: showNat_large)
  qed
qed

lemma showNat_length_large: "\<not> n < 10 \<Longrightarrow> 2 \<le> length (showNat n)"
proof -
  assume a: "\<not> n < 10"
  have "showNat (n div 10) \<noteq> []"
    by (cases "n div 10 < 10") (simp_all add: showNat_small showNat_large)
  then have "1 \<le> length (showNat (n div 10))" by (cases "showNat (n div 10)") simp_all
  with a show ?thesis by (simp add: showNat_large)
qed

lemma showNat_inj: "showNat m = showNat n \<Longrightarrow> m = n"
proof (induction m arbitrary: n rule: showNat.induct)
  case (1 m)
  show ?case
  proof (cases "m < 10")
    case mT: True
    show ?thesis
    proof (cases "n < 10")
      case True
      with mT 1(2) show ?thesis by (simp add: showNat_small digitChar_inj)
    next
      case False
      from mT have "length (showNat m) = 1" by (simp add: showNat_small)
      moreover from False have "2 \<le> length (showNat n)" by (rule showNat_length_large)
      ultimately show ?thesis using 1(2) by simp
    qed
  next
    case mF: False
    show ?thesis
    proof (cases "n < 10")
      case True
      then have "length (showNat n) = 1" by (simp add: showNat_small)
      moreover from mF have "2 \<le> length (showNat m)" by (rule showNat_length_large)
      ultimately show ?thesis using 1(2) by simp
    next
      case False
      from 1(2) mF False have a: "showNat (m div 10) = showNat (n div 10)"
        and b: "digitChar (m mod 10) = digitChar (n mod 10)" by (simp_all add: showNat_large)
      from a mF 1(1) have "m div 10 = n div 10" by blast
      moreover have "m mod 10 = n mod 10" by (rule digitChar_inj [OF _ _ b]) simp_all
      ultimately show ?thesis by (metis div_mult_mod_eq)
    qed
  qed
qed

lemma suffix_after_sep:
  assumes "a @ c # u = b @ c # v" "c \<notin> set u" "c \<notin> set v"
  shows "u = v"
proof -
  from assms(1) have "rev (a @ c # u) = rev (b @ c # v)" by simp
  then have "takeWhile (\<lambda>x. x \<noteq> c) (rev u @ c # rev a) = takeWhile (\<lambda>x. x \<noteq> c) (rev v @ c # rev b)"
    by simp
  moreover have "takeWhile (\<lambda>x. x \<noteq> c) (rev u @ c # rev a) = rev u"
    using assms(2) by (auto simp: takeWhile_tail)
  moreover have "takeWhile (\<lambda>x. x \<noteq> c) (rev v @ c # rev b) = rev v"
    using assms(3) by (auto simp: takeWhile_tail)
  ultimately show ?thesis by simp
qed

section \<open>What each handler does to the connections\<close>

lemma connKey_newConnection:
  "connKey (newConnection now dc nodeId pinName isInput) =
     (if isInput then (startNodeId dc, startPin dc, nodeId, pinName)
      else (nodeId, pinName, startNodeId dc, startPin dc))"
  by (simp add: connKey_def newConnection_def)

lemma sameEnds_connKey: "sameEnds nc c \<longleftrightarrow> connKey c = connKey nc"
  by (auto simp: sameEnds_def connKey_def)

lemma list_ex_sameEnds: "list_ex (sameEnds nc) cs \<longleftrightarrow> connKey nc \<in> set (map connKey cs)"
  by (induction cs) (auto simp: sameEnds_connKey)

lemma handlePinMouseUp_commit:
  assumes "drawingConnection s = Some dc" "startNodeId dc \<noteq> nodeId" "dc_isInput dc \<noteq> isInput"
  shows "connections (handlePinMouseUp now nodeId pinName isInput s) =
           (if connKey (newConnection now dc nodeId pinName isInput) \<in> set (map connKey (connections s))
            then connections s
            else connections s @ [newConnection now dc nodeId pinName isInput])"
  using assms by (simp add: handlePinMouseUp_def Let_def list_ex_sameEnds)

lemma handlePinMouseUp_rest:
  "nodes (handlePinMouseUp now nodeId pinName isInput s) = nodes s
   \<and> selectedNode (handlePinMouseUp now nodeId pinName isInput s) = selectedNode s
   \<and> dragOffset (handlePinMouseUp now nodeId pinName isInput s) = dragOffset s
   \<and> drawingConnection (handlePinMouseUp now nodeId pinName isInput s) = None"
  by (simp add: handlePinMouseUp_def Let_def split: option.splits)

lemma handlePinMouseUp_reject:
  assumes "drawingConnection s = None \<or> (\<exists>dc. drawingConnection s = Some dc \<and>
             (startNodeId dc = nodeId \<or> dc_isInput dc = isInput))"
  shows "connections (handlePinMouseUp now nodeId pinName isInput s) = connections s"
  using assms by (auto simp: handlePinMouseUp_def)

lemma handlePinMouseDown_connections:
  "connections (handlePinMouseDown nodeId pinName isInput index s) = connections s"
  by (simp add: handlePinMouseDown_def split: option.splits prod.splits)

lemma handleNodeMouseDown_connections:
  "connections (handleNodeMouseDown cx cy ident s) = connections s"
  by (simp add: handleNodeMouseDown_def split: option.splits)

lemma handleMouseMove_connections:
  "connections (handleMouseMove cx cy rect s) = connections s"
  by (simp add: handleMouseMove_def split: option.splits prod.splits)

lemma handleMouseUp_connections: "connections (handleMouseUp s) = connections s"
  by (simp add: handleMouseUp_def)

lemma handleSend_connections: "connections (handleSend clock parsed s) = connections s"
  by (simp add: handleSend_def)

lemma step_connections:
  "connections (step e s) = connections s
   \<or> (\<exists>X. e = DeleteClick X \<and>
        connections (step e s) = filter (\<lambda>c. fromNodeId c \<noteq> X \<and> toNodeId c \<noteq> X) (connections s))
   \<or> (\<exists>now nodeId pinName isInput dc.
        e = PinMouseUp now nodeId pinName isInput \<and> drawingConnection s = Some dc \<and>
        startNodeId dc \<noteq> nodeId \<and> dc_isInput dc \<noteq> isInput \<and>
        connKey (newConnection now dc nodeId pinName isInput) \<notin> set (map connKey (connections s)) \<and>
        connections (step e s) = connections s @ [newConnection now dc nodeId pinName isInput])"
proof (cases e)
  case (PinMouseUp now nodeId pinName isInput)
  show ?thesis
  proof (cases "drawingConnection s")
    case None
    with PinMouseUp show ?thesis by (simp add: handlePinMouseUp_reject)
  next
    case (Some dc)
    show ?thesis
    proof (cases "startNodeId dc = nodeId \<or> dc_isInput dc = isInput")
      case True
      with Some PinMouseUp show ?thesis by (simp add: handlePinMouseUp_reject)
    next
      case False
      with Some PinMouseUp handlePinMouseUp_commit [of s dc nodeId isInput now pinName]
      show ?thesis by (cases "connKey (newConnection now dc nodeId pinName isInput) \<in> set (map connKey (connections s))") auto
    qed
  qed
qed (simp_all add: handleNodeMouseDown_connections handlePinMouseDown_connections
      handleMouseMove_connections handleMouseUp_connections handleSend_connections deleteNode_def)

lemma newConnection_no_loop:
  "startNodeId dc \<noteq> nodeId \<Longrightarrow>
   fromNodeId (newConnection now dc nodeId pinName isInput)
     \<noteq> toNodeId (newConnection now dc nodeId pinName isInput)"
  by (auto simp: newConnection_def)

lemma reachable_no_self_loop:
  "reachable s \<Longrightarrow> \<forall>c \<in> set (connections s). fromNodeId c \<noteq> toNodeId c"
proof (induction rule: reachable.induct)
  case reach_init
  show ?case by (simp add: initState_def)
next
  case (reach_step s e)
  from step_connections [of e s] show ?case
  proof (elim disjE exE conjE)
    assume "connections (step e s) = connections s"
    with reach_step.IH show ?thesis by simp
  next
    fix X assume "connections (step e s) = filter (\<lambda>c. fromNodeId c \<noteq> X \<and> toNodeId c \<noteq> X) (connections s)"
    with reach_step.IH show ?thesis by simp
  next
    fix now nodeId pinName isInput dc
    assume "startNodeId dc \<noteq> nodeId"
      and "connections (step e s) = connections s @ [newConnection now dc nodeId pinName isInput]"
    with reach_step.IH newConnection_no_loop [of dc nodeId now pinName isInput]
    show ?thesis by auto
  qed
qed

lemma reachable_distinct_keys:
  "reachable s \<Longrightarrow> distinct (map connKey (connections s))"
proof (induction rule: reachable.induct)
  case reach_init
  show ?case by (simp add: initState_def)
next
  case (reach_step s e)
  from step_connections [of e s] show ?case
  proof (elim disjE exE conjE)
    assume "connections (step e s) = connections s"
    with reach_step.IH show ?thesis by simp
  next
    fix X assume "connections (step e s) = filter (\<lambda>c. fromNodeId c \<noteq> X \<and> toNodeId c \<noteq> X) (connections s)"
    with reach_step.IH show ?thesis by (simp add: distinct_map_filter)
  next
    fix now nodeId pinName isInput dc
    assume "connKey (newConnection now dc nodeId pinName isInput) \<notin> set (map connKey (connections s))"
      and "connections (step e s) = connections s @ [newConnection now dc nodeId pinName isInput]"
    with reach_step.IH show ?thesis by simp
  qed
qed

section \<open>Injection of a batch\<close>

lemma getProp_total:
  "n \<noteq> JNull \<Longrightarrow> n \<noteq> JUndefined \<Longrightarrow> \<exists>v. getProp n k = Inr v"
  by (cases n) simp_all

lemma getProp_missing:
  "k \<notin> fst ` set kvs \<Longrightarrow> getProp (JObj kvs) k = Inr JUndefined"
proof -
  assume "k \<notin> fst ` set kvs"
  then have "map_of (rev kvs) k = None" by (simp add: map_of_eq_None_iff)
  then show ?thesis by simp
qed

lemma mkNode_Inr:
  assumes "n \<noteq> JNull" "n \<noteq> JUndefined"
  shows "\<exists>nm ty ins outs.
           getProp n ''name'' = Inr nm \<and> getProp n ''type'' = Inr ty \<and>
           getProp n ''inputs'' = Inr ins \<and> getProp n ''outputs'' = Inr outs \<and>
           mkNode clock n idx =
             Inr \<lparr> n_id = ''node-'' @ showInt (clock idx) @ ''-'' @ showNat idx,
                   n_name = nm,
                   n_type = (if truthy ty then ty else JStr ''function''),
                   n_x = 100 + real idx * 250,
                   n_y = 100 + real (idx mod 2) * 100,
                   n_inputs = (if truthy ins then ins else JArr []),
                   n_outputs = (if truthy outs then outs else JArr []) \<rparr>"
proof -
  from assms obtain nm where a: "getProp n ''name'' = Inr nm" using getProp_total by blast
  from assms obtain ty where b: "getProp n ''type'' = Inr ty" using getProp_total by blast
  from assms obtain ins where c: "getProp n ''inputs'' = Inr ins" using getProp_total by blast
  from assms obtain outs where d: "getProp n ''outputs'' = Inr outs" using getProp_total by blast
  from a b c d show ?thesis by (simp add: mkNode_def js_or_def)
qed

lemma mapNodes_Inr:
  assumes "JNull \<notin> set ds" "JUndefined \<notin> set ds"
  shows "\<exists>new. mapNodes clock idx ds = Inr new \<and> length new = length ds \<and>
           (\<forall>j < length ds. mkNode clock (ds ! j) (idx + j) = Inr (new ! j))"
  using assms
proof (induction ds arbitrary: idx)
  case Nil
  show ?case by simp
next
  case (Cons d ds)
  from Cons.prems have dn: "d \<noteq> JNull" "d \<noteq> JUndefined" by auto
  then obtain nd where nd: "mkNode clock d idx = Inr nd" using mkNode_Inr [of d clock idx] by blast
  from Cons.prems have "JNull \<notin> set ds" "JUndefined \<notin> set ds" by auto
  from Cons.IH [OF this, of "Suc idx"] obtain new where
    new: "mapNodes clock (Suc idx) ds = Inr new" "length new = length ds"
      "\<forall>j < length ds. mkNode clock (ds ! j) (Suc idx + j) = Inr (new ! j)" by blast
  have "mapNodes clock idx (d # ds) = Inr (nd # new)" using nd new(1) by simp
  moreover have "length (nd # new) = length (d # ds)" using new(2) by simp
  moreover have "\<forall>j < length (d # ds). mkNode clock ((d # ds) ! j) (idx + j) = Inr ((nd # new) ! j)"
  proof (intro allI impI)
    fix j assume "j < length (d # ds)"
    then show "mkNode clock ((d # ds) ! j) (idx + j) = Inr ((nd # new) ! j)"
      using nd new(3) by (cases j) auto
  qed
  ultimately show ?case by blast
qed

lemma mkNode_fields:
  assumes "mkNode clock n idx = Inr nd"
  shows "n_id nd = ''node-'' @ showInt (clock idx) @ ''-'' @ showNat idx"
    and "n_x nd = 100 + real idx * 250"
    and "n_y nd = 100 + real (idx mod 2) * 100"
  using assms by (auto simp: mkNode_def split: sum.splits)

lemma node_id_inj:
  assumes "''node-'' @ showInt t1 @ ''-'' @ showNat i = ''node-'' @ showInt t2 @ ''-'' @ showNat j"
  shows "i = j"
proof -
  from assms have "(''node-'' @ showInt t1) @ CHR ''-'' # showNat i
                 = (''node-'' @ showInt t2) @ CHR ''-'' # showNat j" by simp
  then have "showNat i = showNat j"
    by (rule suffix_after_sep) (rule showNat_no_minus)+
  then show ?thesis by (rule showNat_inj)
qed

lemma injectParsed_batch:
  assumes "getProp parsed ''nodes'' = Inr (JArr ds)" "JNull \<notin> set ds" "JUndefined \<notin> set ds"
  shows "\<exists>new. injectParsed clock parsed prev = prev @ new \<and> length new = length ds \<and>
           (\<forall>j < length ds. mkNode clock (ds ! j) j = Inr (new ! j))"
proof -
  from mapNodes_Inr [OF assms(2,3), of clock 0] obtain new where
    new: "mapNodes clock 0 ds = Inr new" "length new = length ds"
      "\<forall>j < length ds. mkNode clock (ds ! j) (0 + j) = Inr (new ! j)" by blast
  from assms(1) new(1) have "injectParsed clock parsed prev = prev @ new"
    by (simp add: injectParsed_def)
  with new(2,3) show ?thesis by auto
qed

lemma demoInjected_eval:
  "demoInjected =
     \<lparr> nodes =
         [\<lparr> n_id = idA, n_name = JStr ''Event Jump'', n_type = JStr ''event'',
             n_x = 100, n_y = 100, n_inputs = JArr [], n_outputs = JArr [JStr ''Out''] \<rparr>,
          \<lparr> n_id = idB, n_name = JStr ''Launch Character'', n_type = JStr ''function'',
             n_x = 350, n_y = 200, n_inputs = JArr [JStr ''In''], n_outputs = JArr [] \<rparr>,
          \<lparr> n_id = idC, n_name = JStr ''Branch'', n_type = JStr ''function'',
             n_x = 600, n_y = 100, n_inputs = JArr [],
             n_outputs = JArr [JStr ''True'', JStr ''False''] \<rparr>],
       connections = [], selectedNode = None, dragOffset = None, drawingConnection = None \<rparr>"
  by (simp add: demoInjected_def handleSend_def injectParsed_def demoParsed_def demoBatch_def
      mkNode_def js_or_def showInt_def showNat.simps digitChar_def demoClock_def initState_def
      idA_def idB_def idC_def)

lemma step_new_connection:
  assumes "c \<in> set (connections (step e s))" "c \<notin> set (connections s)"
  shows "\<exists>now nodeId pinName isInput dc.
           e = PinMouseUp now nodeId pinName isInput \<and> drawingConnection s = Some dc \<and>
           startNodeId dc \<noteq> nodeId \<and> dc_isInput dc \<noteq> isInput \<and>
           c = newConnection now dc nodeId pinName isInput"
  using step_connections [of e s] assms by auto

lemma count_key_distinct:
  "distinct (map f xs) \<Longrightarrow> k \<in> set (map f xs) \<Longrightarrow> length (filter (\<lambda>c. f c = k) xs) = 1"
proof (induction xs)
  case Nil
  then show ?case by simp
next
  case (Cons x xs)
  show ?case
  proof (cases "f x = k")
    case True
    with Cons.prems(1) have "\<forall>c \<in> set xs. f c \<noteq> k" by (auto simp: image_iff)
    then have "filter (\<lambda>c. f c = k) xs = []" by (simp add: filter_empty_conv)
    with True show ?thesis by simp
  next
    case False
    with Cons show ?thesis by auto
  qed
qed

lemma repeated_drag_rejected:
  assumes "(if b' then (a, p, n, q) else (n, q, a, p)) \<in> set (map connKey (connections s))"
    and "drawingConnection s = None"
  shows "connections (handlePinMouseUp now n q b' (handlePinMouseDown a p b idx s)) = connections s"
proof (cases "find (\<lambda>nd. n_id nd = a) (nodes s)")
  case None
  then have "handlePinMouseDown a p b idx s = s" by (simp add: handlePinMouseDown_def)
  with assms(2) show ?thesis by (simp add: handlePinMouseUp_reject)
next
  case (Some node)
  obtain x y where xy: "getNodePinPos node (Fin (real idx)) b = (x, y)"
    by (cases "getNodePinPos node (Fin (real idx)) b")
  let ?dc = "\<lparr> startNodeId = a, startPin = p, dc_isInput = b,
              startX = x, startY = y, currX = x, currY = y \<rparr>"
  let ?s = "handlePinMouseDown a p b idx s"
  from Some xy have pend: "drawingConnection ?s = Some ?dc"
    by (simp add: handlePinMouseDown_def)
  have conns: "connections ?s = connections s" by (rule handlePinMouseDown_connections)
  show ?thesis
  proof (cases "a = n \<or> b = b'")
    case True
    with pend have "connections (handlePinMouseUp now n q b' ?s) = connections ?s"
      by (intro handlePinMouseUp_reject) auto
    with conns show ?thesis by simp
  next
    case False
    then have ne: "startNodeId ?dc \<noteq> n" and dir: "dc_isInput ?dc \<noteq> b'" by simp_all
    from assms(1) have "connKey (newConnection now ?dc n q b') \<in> set (map connKey (connections ?s))"
      by (cases b') (simp_all add: connKey_newConnection conns)
    with handlePinMouseUp_commit [OF pend ne dir, of now q] conns show ?thesis by simp
  qed
qed

section \<open>The worked session, evaluated\<close>

lemma demo_ids_distinct: "idA \<noteq> idB" "idA \<noteq> idC" "idB \<noteq> idC" "idB \<noteq> idA" "idC \<noteq> idA" "idC \<noteq> idB"
  by (simp_all add: idA_def idB_def idC_def)

lemma demoInjected_step: "demoInjected = step (Inject demoClock demoParsed) initState"
  by (simp add: demoInjected_def)

lemma demoInjected_fields:
  "map n_id (nodes demoInjected) = [idA, idB, idC]"
  "connections demoInjected = []"
  "selectedNode demoInjected = None"
  "dragOffset demoInjected = None"
  "drawingConnection demoInjected = None"
  by (simp_all add: demoInjected_eval)

lemma demoPendingOut_fields:
  "nodes demoPendingOut = nodes demoInjected"
  "connections demoPendingOut = []"
  "selectedNode demoPendingOut = None"
  "dragOffset demoPendingOut = None"
  "drawingConnection demoPendingOut =
     Some \<lparr> startNodeId = idA, startPin = ''Out'', dc_isInput = False,
            startX = Fin 248, startY = Fin 146, currX = Fin 248, currY = Fin 146 \<rparr>"
  by (simp_all add: demoPendingOut_def handlePinMouseDown_def demoInjected_eval getNodePinPos_def
      NODE_WIDTH_def HEADER_HEIGHT_def BODY_PADDING_def PIN_ROW_HEIGHT_def PIN_GAP_def
      PIN_OFFSET_X_def PIN_OFFSET_Y_def dsub_def fl_numeral fl_zero)

lemma demoPendingIn_fields:
  "nodes demoPendingIn = nodes demoInjected"
  "connections demoPendingIn = []"
  "drawingConnection demoPendingIn =
     Some \<lparr> startNodeId = idB, startPin = ''In'', dc_isInput = True,
            startX = Fin 362, startY = Fin 246, currX = Fin 362, currY = Fin 246 \<rparr>"
  by (simp_all add: demoPendingIn_def handlePinMouseDown_def demoInjected_eval getNodePinPos_def
      NODE_WIDTH_def HEADER_HEIGHT_def BODY_PADDING_def PIN_ROW_HEIGHT_def PIN_GAP_def
      PIN_OFFSET_X_def PIN_OFFSET_Y_def demo_ids_distinct dsub_def fl_numeral fl_zero)

lemma demoConnected_fields:
  "nodes demoConnected = nodes demoInjected"
  "connections demoConnected = [demoConnAB]"
  "drawingConnection demoConnected = None"
  by (simp_all add: demoConnected_def handlePinMouseUp_def demoPendingOut_fields Let_def
      newConnection_def demo_ids_distinct demoConnAB_def showInt_def showNat.simps digitChar_def)

lemma demo_reachable:
  "reachable demoInjected" "reachable demoPendingOut" "reachable demoPendingIn"
  "reachable demoConnected"
  unfolding demoConnected_def demoPendingOut_def demoPendingIn_def demoInjected_step
  by (intro reach_step reach_init)+

lemma demoConnected2_fields:
  "nodes demoConnected2 = nodes demoInjected"
  "connections demoConnected2 = [demoConnAB, demoConnCB]"
  by (simp_all add: demoConnected2_def handlePinMouseUp_def handlePinMouseDown_def
      demoConnected_fields demoInjected_eval Let_def split_def
      newConnection_def demo_ids_distinct demoConnAB_def demoConnCB_def sameEnds_def
      showInt_def showNat.simps digitChar_def)

lemma idA_nonempty: "idA \<noteq> []"
  by (simp add: idA_def)

lemma demoBatch_ok:
  "getProp demoParsed ''nodes'' = Inr (JArr demoBatch)"
  "JNull \<notin> set demoBatch" "JUndefined \<notin> set demoBatch"
  by (simp_all add: demoParsed_def demoBatch_def)

section \<open>The claims\<close>

text \<open>
  Claim C1.  A pin-to-pin drag between an output pin \<open>(oNode, oPin)\<close> and an input pin
  \<open>(iNode, iPin)\<close> of a different node, begun at either end, leaves the connections with
  one whose source is the output pin and whose destination is the input pin: if no stored
  connection has these ends, exactly that connection is appended, and otherwise the list
  (which already holds one) is left as it is.  The pending draw is cleared.
\<close>

theorem handlePinMouseUp_normalizes:
  assumes pend: "drawingConnection s = Some dc"
    and diff: "oNode \<noteq> iNode"
    and ends: "(startNodeId dc = oNode \<and> startPin dc = oPin \<and> \<not> dc_isInput dc \<and>
                nodeId = iNode \<and> pinName = iPin \<and> isInput)
             \<or> (startNodeId dc = iNode \<and> startPin dc = iPin \<and> dc_isInput dc \<and>
                nodeId = oNode \<and> pinName = oPin \<and> \<not> isInput)"
  shows "connections (handlePinMouseUp now nodeId pinName isInput s) =
           (if (oNode, oPin, iNode, iPin) \<in> set (map connKey (connections s))
            then connections s
            else connections s @
                   [\<lparr> c_id = ''conn-'' @ showInt now, fromNodeId = oNode, fromPin = oPin,
                      toNodeId = iNode, toPin = iPin \<rparr>])
         \<and> (oNode, oPin, iNode, iPin)
              \<in> set (map connKey (connections (handlePinMouseUp now nodeId pinName isInput s)))
         \<and> drawingConnection (handlePinMouseUp now nodeId pinName isInput s) = None"
proof -
  from ends diff have ne: "startNodeId dc \<noteq> nodeId" and dir: "dc_isInput dc \<noteq> isInput"
    by auto
  from ends have key: "connKey (newConnection now dc nodeId pinName isInput) = (oNode, oPin, iNode, iPin)"
    by (auto simp: connKey_newConnection)
  from ends have nc: "newConnection now dc nodeId pinName isInput =
      \<lparr> c_id = ''conn-'' @ showInt now, fromNodeId = oNode, fromPin = oPin,
        toNodeId = iNode, toPin = iPin \<rparr>"
    by (auto simp: newConnection_def)
  have c: "connections (handlePinMouseUp now nodeId pinName isInput s) =
           (if (oNode, oPin, iNode, iPin) \<in> set (map connKey (connections s))
            then connections s
            else connections s @
                   [\<lparr> c_id = ''conn-'' @ showInt now, fromNodeId = oNode, fromPin = oPin,
                      toNodeId = iNode, toPin = iPin \<rparr>])"
    using handlePinMouseUp_commit [OF pend ne dir, of now pinName] key nc by simp
  have "(oNode, oPin, iNode, iPin)
          \<in> set (map connKey (connections (handlePinMouseUp now nodeId pinName isInput s)))"
    unfolding c by (simp add: connKey_def)
  with c handlePinMouseUp_rest [of now nodeId pinName isInput s] show ?thesis by blast
qed

theorem handlePinMouseUp_normalizes_witness:
  "connections (handlePinMouseUp 1700000005000 idB ''In'' True demoPendingOut) = [demoConnAB]
   \<and> connections (handlePinMouseUp 1700000005000 idA ''Out'' False demoPendingIn) = [demoConnAB]"
proof -
  let ?dcOut = "\<lparr> startNodeId = idA, startPin = ''Out'', dc_isInput = False,
                  startX = Fin 248, startY = Fin 146, currX = Fin 248, currY = Fin 146 \<rparr>"
  let ?dcIn = "\<lparr> startNodeId = idB, startPin = ''In'', dc_isInput = True,
                 startX = Fin 362, startY = Fin 246, currX = Fin 362, currY = Fin 246 \<rparr>"
  have ne: "idA \<noteq> idB" by (rule demo_ids_distinct)
  have pOut: "drawingConnection demoPendingOut = Some ?dcOut" by (rule demoPendingOut_fields)
  have pIn: "drawingConnection demoPendingIn = Some ?dcIn" by (rule demoPendingIn_fields)
  have eOut: "(startNodeId ?dcOut = idA \<and> startPin ?dcOut = ''Out'' \<and> \<not> dc_isInput ?dcOut \<and>
                idB = idB \<and> ''In'' = ''In'' \<and> True)
             \<or> (startNodeId ?dcOut = idB \<and> startPin ?dcOut = ''In'' \<and> dc_isInput ?dcOut \<and>
                idB = idA \<and> ''In'' = ''Out'' \<and> \<not> True)" by simp
  have eIn: "(startNodeId ?dcIn = idA \<and> startPin ?dcIn = ''Out'' \<and> \<not> dc_isInput ?dcIn \<and>
                idA = idB \<and> ''Out'' = ''In'' \<and> False)
             \<or> (startNodeId ?dcIn = idB \<and> startPin ?dcIn = ''In'' \<and> dc_isInput ?dcIn \<and>
                idA = idA \<and> ''Out'' = ''Out'' \<and> \<not> False)" by simp
  have t: "showInt 1700000005000 = ''1700000005000''"
    by (simp add: showInt_def showNat.simps digitChar_def)
  have a: "connections (handlePinMouseUp 1700000005000 idB ''In'' True demoPendingOut) = [demoConnAB]"
    using handlePinMouseUp_normalizes [OF pOut ne eOut, of 1700000005000]
    by (simp add: demoPendingOut_fields demoConnAB_def t)
  have b: "connections (handlePinMouseUp 1700000005000 idA ''Out'' False demoPendingIn) = [demoConnAB]"
    using handlePinMouseUp_normalizes [OF pIn ne eIn, of 1700000005000]
    by (simp add: demoPendingIn_fields demoConnAB_def t)
  from a b show ?thesis by simp
qed

text \<open>
  Claim C2.  Deleting the node id \<open>X\<close> keeps exactly the nodes whose id is not \<open>X\<close> and
  exactly the connections whose source and destination node are not \<open>X\<close>, in their order:
  no node with id \<open>X\<close> and no connection referencing \<open>X\<close> remains, every other node and
  connection stays, and the rest of the state is untouched.
\<close>

theorem deleteNode_cascade:
  "nodes (deleteNode X s) = filter (\<lambda>n. n_id n \<noteq> X) (nodes s)
   \<and> connections (deleteNode X s)
       = filter (\<lambda>c. fromNodeId c \<noteq> X \<and> toNodeId c \<noteq> X) (connections s)
   \<and> X \<notin> n_id ` set (nodes (deleteNode X s))
   \<and> (\<forall>c \<in> set (connections (deleteNode X s)). fromNodeId c \<noteq> X \<and> toNodeId c \<noteq> X)
   \<and> (\<forall>n \<in> set (nodes s). n_id n \<noteq> X \<longrightarrow> n \<in> set (nodes (deleteNode X s)))
   \<and> (\<forall>c \<in> set (connections s). fromNodeId c \<noteq> X \<and> toNodeId c \<noteq> X
         \<longrightarrow> c \<in> set (connections (deleteNode X s)))
   \<and> selectedNode (deleteNode X s) = selectedNode s
   \<and> dragOffset (deleteNode X s) = dragOffset s
   \<and> drawingConnection (deleteNode X s) = drawingConnection s"
  by (auto simp: deleteNode_def)

theorem deleteNode_cascade_witness:
  "map n_id (nodes demoConnected2) = [idA, idB, idC]
   \<and> connections demoConnected2 = [demoConnAB, demoConnCB]
   \<and> map n_id (nodes (deleteNode idA demoConnected2)) = [idB, idC]
   \<and> connections (deleteNode idA demoConnected2) = [demoConnCB]
   \<and> idA \<notin> n_id ` set (nodes (deleteNode idA demoConnected2))"
  using deleteNode_cascade [of idA demoConnected2]
  by (simp add: demoConnected2_fields demoInjected_fields demoInjected_eval demo_ids_distinct
      demoConnAB_def demoConnCB_def)

text \<open>
  Claim C3.  For every node \<open>N\<close>, pin index \<open>i\<close> and direction flag, the pin position is
  \<open>x = N.x + 12\<close> for an input pin and \<open>x = N.x + 160 - 12\<close> for an output pin, and
  \<open>y = N.y + 28 + 8 + i * (20 + 4) + 20 / 2\<close>, every sum, difference and product being the
  program's own operation on doubles, taken in the order of the source.  The constants are
  node width 160, header height 28, top padding 8, row height 20, gap 4 and inset 12, and
  the row pitch \<open>20 + 4\<close> is the double 24.  The result depends on the node only through
  its origin: replacing every other field of the node leaves it unchanged.
\<close>

theorem getNodePinPos_formula:
  "getNodePinPos N i True =
     (dadd (Fin (n_x N)) (Fin 12),
      dadd (dadd (dadd (dadd (Fin (n_y N)) (Fin 28)) (Fin 8)) (dmul i (dadd (Fin 20) (Fin 4))))
        (Fin (20 / 2)))
   \<and> getNodePinPos N i False =
     (dsub (dadd (Fin (n_x N)) (Fin 160)) (Fin 12),
      dadd (dadd (dadd (dadd (Fin (n_y N)) (Fin 28)) (Fin 8)) (dmul i (dadd (Fin 20) (Fin 4))))
        (Fin (20 / 2)))
   \<and> NODE_WIDTH = Fin 160 \<and> HEADER_HEIGHT = Fin 28 \<and> BODY_PADDING = Fin 8
   \<and> PIN_ROW_HEIGHT = Fin 20 \<and> PIN_GAP = Fin 4 \<and> PIN_OFFSET_X = Fin 12
   \<and> dadd (Fin 20) (Fin 4) = Fin 24
   \<and> getNodePinPos N i isInput =
       getNodePinPos \<lparr> n_id = a, n_name = b, n_type = c, n_x = n_x N, n_y = n_y N,
                       n_inputs = d, n_outputs = e \<rparr> i isInput"
  by (simp add: getNodePinPos_def NODE_WIDTH_def HEADER_HEIGHT_def BODY_PADDING_def
      PIN_ROW_HEIGHT_def PIN_GAP_def PIN_OFFSET_X_def PIN_OFFSET_Y_def fl_numeral)

text \<open>
  Claim C4.  In every reachable state no stored connection runs from a node to itself; a
  pointer-up over a pin of the same direction as the pin the draw started from leaves the
  connections as they are; and whenever an event adds a connection, the event is a pointer-up
  over a pin, on another node than the one the pending draw started from and of the other
  direction, and the connection is the one built from these two ends.
\<close>

theorem no_self_loop_no_same_direction:
  assumes "reachable s"
  shows "(\<forall>c \<in> set (connections s). fromNodeId c \<noteq> toNodeId c)
       \<and> (\<forall>dc now nodeId pinName isInput.
            drawingConnection s = Some dc \<and> dc_isInput dc = isInput
            \<longrightarrow> connections (handlePinMouseUp now nodeId pinName isInput s) = connections s)
       \<and> (\<forall>e c. c \<in> set (connections (step e s)) \<and> c \<notin> set (connections s)
            \<longrightarrow> (\<exists>now nodeId pinName isInput dc.
                   e = PinMouseUp now nodeId pinName isInput \<and>
                   drawingConnection s = Some dc \<and>
                   startNodeId dc \<noteq> nodeId \<and> dc_isInput dc \<noteq> isInput \<and>
                   c = newConnection now dc nodeId pinName isInput))"
proof (intro conjI)
  show "\<forall>c \<in> set (connections s). fromNodeId c \<noteq> toNodeId c"
    using assms by (rule reachable_no_self_loop)
  show "\<forall>dc now nodeId pinName isInput.
            drawingConnection s = Some dc \<and> dc_isInput dc = isInput
            \<longrightarrow> connections (handlePinMouseUp now nodeId pinName isInput s) = connections s"
    by (auto intro: handlePinMouseUp_reject)
  show "\<forall>e c. c \<in> set (connections (step e s)) \<and> c \<notin> set (connections s)
            \<longrightarrow> (\<exists>now nodeId pinName isInput dc.
                   e = PinMouseUp now nodeId pinName isInput \<and>
                   drawingConnection s = Some dc \<and>
                   startNodeId dc \<noteq> nodeId \<and> dc_isInput dc \<noteq> isInput \<and>
                   c = newConnection now dc nodeId pinName isInput)"
    using step_new_connection by blast
qed

theorem no_self_loop_no_same_direction_witness:
  "reachable demoConnected
   \<and> demoConnAB \<in> set (connections demoConnected)
   \<and> fromNodeId demoConnAB \<noteq> toNodeId demoConnAB
   \<and> reachable demoPendingOut
   \<and> connections (handlePinMouseUp 1700000005000 idC ''True'' False demoPendingOut)
       = connections demoPendingOut
   \<and> demoConnAB \<in> set (connections (step (PinMouseUp 1700000005000 idB ''In'' True) demoPendingOut))
   \<and> demoConnAB \<notin> set (connections demoPendingOut)"
proof -
  have r1: "reachable demoConnected" and r2: "reachable demoPendingOut"
    by (rule demo_reachable)+
  have m: "demoConnAB \<in> set (connections demoConnected)"
    by (simp add: demoConnected_fields)
  from no_self_loop_no_same_direction [OF r1] m
  have a: "fromNodeId demoConnAB \<noteq> toNodeId demoConnAB" by blast
  have p: "drawingConnection demoPendingOut =
     Some \<lparr> startNodeId = idA, startPin = ''Out'', dc_isInput = False,
            startX = Fin 248, startY = Fin 146, currX = Fin 248, currY = Fin 146 \<rparr>"
    by (rule demoPendingOut_fields)
  from no_self_loop_no_same_direction [OF r2] p
  have b: "connections (handlePinMouseUp 1700000005000 idC ''True'' False demoPendingOut)
       = connections demoPendingOut" by simp
  have c: "demoConnAB \<in> set (connections (step (PinMouseUp 1700000005000 idB ''In'' True) demoPendingOut))"
    using m by (simp add: demoConnected_def)
  have d: "demoConnAB \<notin> set (connections demoPendingOut)"
    by (simp add: demoPendingOut_fields)
  from r1 m a r2 b c d show ?thesis by blast
qed

text \<open>
  Claim C5.  In every reachable state the stored connections have pairwise different
  (fromNodeId, fromPin, toNodeId, toPin) tuples.  After a drag that passes the two rejection
  tests has been finalized, exactly one stored connection has its normalized tuple, and
  drawing the same connection once more, from either end, leaves the connections unchanged.
\<close>

theorem no_duplicate_connections:
  assumes "reachable s"
  shows "distinct (map connKey (connections s))
       \<and> (\<forall>dc now now2 n2 p2 b2 idx.
            drawingConnection s = Some dc \<and> startNodeId dc \<noteq> n2 \<and> dc_isInput dc \<noteq> b2
            \<longrightarrow> length (filter (\<lambda>c. connKey c = connKey (newConnection now dc n2 p2 b2))
                          (connections (handlePinMouseUp now n2 p2 b2 s))) = 1
              \<and> connections (handlePinMouseUp now2 n2 p2 b2
                    (handlePinMouseDown (startNodeId dc) (startPin dc) (dc_isInput dc) idx
                       (handlePinMouseUp now n2 p2 b2 s)))
                  = connections (handlePinMouseUp now n2 p2 b2 s)
              \<and> connections (handlePinMouseUp now2 (startNodeId dc) (startPin dc) (dc_isInput dc)
                    (handlePinMouseDown n2 p2 b2 idx (handlePinMouseUp now n2 p2 b2 s)))
                  = connections (handlePinMouseUp now n2 p2 b2 s))"
proof (intro conjI allI impI)
  show "distinct (map connKey (connections s))" using assms by (rule reachable_distinct_keys)
next
  fix dc now now2 n2 p2 b2 idx
  assume h: "drawingConnection s = Some dc \<and> startNodeId dc \<noteq> n2 \<and> dc_isInput dc \<noteq> b2"
  let ?s1 = "handlePinMouseUp now n2 p2 b2 s"
  let ?k = "connKey (newConnection now dc n2 p2 b2)"
  from h have pend: "drawingConnection s = Some dc" and ne: "startNodeId dc \<noteq> n2"
    and dir: "dc_isInput dc \<noteq> b2" by simp_all
  have mem: "?k \<in> set (map connKey (connections ?s1))"
    using handlePinMouseUp_commit [OF pend ne dir, of now p2] by simp
  have "reachable (step (PinMouseUp now n2 p2 b2) s)" using assms by (rule reach_step)
  then have "reachable ?s1" by simp
  then have dist: "distinct (map connKey (connections ?s1))" by (rule reachable_distinct_keys)
  show "length (filter (\<lambda>c. connKey c = ?k) (connections ?s1)) = 1"
    using dist mem by (rule count_key_distinct)
  have idle: "drawingConnection ?s1 = None" by (simp add: handlePinMouseUp_rest)
  have k1: "(if b2 then (startNodeId dc, startPin dc, n2, p2) else (n2, p2, startNodeId dc, startPin dc))
              \<in> set (map connKey (connections ?s1))"
    using mem by (simp only: connKey_newConnection)
  show "connections (handlePinMouseUp now2 n2 p2 b2
          (handlePinMouseDown (startNodeId dc) (startPin dc) (dc_isInput dc) idx ?s1))
        = connections ?s1"
    using k1 idle by (rule repeated_drag_rejected)
  from dir have "(if dc_isInput dc then (n2, p2, startNodeId dc, startPin dc)
                  else (startNodeId dc, startPin dc, n2, p2))
               = (if b2 then (startNodeId dc, startPin dc, n2, p2) else (n2, p2, startNodeId dc, startPin dc))"
    by auto
  with k1 have k2: "(if dc_isInput dc then (n2, p2, startNodeId dc, startPin dc)
                  else (startNodeId dc, startPin dc, n2, p2))
              \<in> set (map connKey (connections ?s1))" by simp
  show "connections (handlePinMouseUp now2 (startNodeId dc) (startPin dc) (dc_isInput dc)
          (handlePinMouseDown n2 p2 b2 idx ?s1))
        = connections ?s1"
    using k2 idle by (rule repeated_drag_rejected)
qed

theorem no_duplicate_connections_witness:
  "reachable demoPendingOut
   \<and> connections (handlePinMouseUp 1700000005000 idB ''In'' True demoPendingOut) = [demoConnAB]
   \<and> connections (handlePinMouseUp 1700000009000 idB ''In'' True
        (handlePinMouseDown idA ''Out'' False 0
           (handlePinMouseUp 1700000005000 idB ''In'' True demoPendingOut))) = [demoConnAB]
   \<and> connections (handlePinMouseUp 1700000009000 idA ''Out'' False
        (handlePinMouseDown idB ''In'' True 0
           (handlePinMouseUp 1700000005000 idB ''In'' True demoPendingOut))) = [demoConnAB]"
proof -
  let ?dc = "\<lparr> startNodeId = idA, startPin = ''Out'', dc_isInput = False,
               startX = Fin 248, startY = Fin 146, currX = Fin 248, currY = Fin 146 \<rparr>"
  have r: "reachable demoPendingOut" by (rule demo_reachable)
  have h: "drawingConnection demoPendingOut = Some ?dc \<and> startNodeId ?dc \<noteq> idB \<and> dc_isInput ?dc \<noteq> True"
    by (simp add: demoPendingOut_fields demo_ids_distinct)
  have c: "connections (handlePinMouseUp 1700000005000 idB ''In'' True demoPendingOut) = [demoConnAB]"
    using demoConnected_fields(2) by (simp add: demoConnected_def)
  from no_duplicate_connections [OF r] h
  have "connections (handlePinMouseUp 1700000009000 idB ''In'' True
          (handlePinMouseDown (startNodeId ?dc) (startPin ?dc) (dc_isInput ?dc) 0
             (handlePinMouseUp 1700000005000 idB ''In'' True demoPendingOut)))
        = connections (handlePinMouseUp 1700000005000 idB ''In'' True demoPendingOut)
      \<and> connections (handlePinMouseUp 1700000009000 (startNodeId ?dc) (startPin ?dc) (dc_isInput ?dc)
          (handlePinMouseDown idB ''In'' True 0
             (handlePinMouseUp 1700000005000 idB ''In'' True demoPendingOut)))
        = connections (handlePinMouseUp 1700000005000 idB ''In'' True demoPendingOut)"
    by blast
  with r c show ?thesis by simp
qed

text \<open>
  Claim C6.  Injecting a batch of \<open>k\<close> descriptors, none of them \<^verbatim>\<open>null\<close>, appends
  exactly \<open>k\<close> nodes to the node collection and leaves the existing nodes and the
  connections as they are; the ids of the new nodes are pairwise distinct; the node at batch
  index \<open>idx\<close> is placed at \<open>x = 100 + idx * 250\<close>, \<open>y = 100 + (idx mod 2) * 100\<close>, and
  these positions are pairwise distinct.
\<close>

theorem handleSend_batch:
  assumes "getProp parsed ''nodes'' = Inr (JArr ds)"
    and "JNull \<notin> set ds" and "JUndefined \<notin> set ds"
  shows "\<exists>new. nodes (handleSend clock parsed s) = nodes s @ new
           \<and> length new = length ds
           \<and> length (nodes (handleSend clock parsed s)) = length (nodes s) + length ds
           \<and> connections (handleSend clock parsed s) = connections s
           \<and> distinct (map n_id new)
           \<and> (\<forall>idx < length ds.
                 n_x (new ! idx) = 100 + real idx * 250 \<and>
                 n_y (new ! idx) = 100 + real (idx mod 2) * 100)
           \<and> distinct (map (\<lambda>n. (n_x n, n_y n)) new)"
proof -
  from injectParsed_batch [OF assms, of clock "nodes s"] obtain new where
    new: "injectParsed clock parsed (nodes s) = nodes s @ new" "length new = length ds"
      "\<forall>j < length ds. mkNode clock (ds ! j) j = Inr (new ! j)" by blast
  have pos: "\<forall>idx < length ds. n_x (new ! idx) = 100 + real idx * 250 \<and>
                 n_y (new ! idx) = 100 + real (idx mod 2) * 100"
    using new(3) mkNode_fields(2,3) by blast
  have ids: "\<forall>idx < length ds. n_id (new ! idx) = ''node-'' @ showInt (clock idx) @ ''-'' @ showNat idx"
    using new(3) mkNode_fields(1) by blast
  have d1: "distinct (map n_id new)"
    unfolding distinct_conv_nth
  proof (intro allI impI)
    fix i j assume "i < length (map n_id new)" "j < length (map n_id new)" "i \<noteq> j"
    then have ij: "i < length ds" "j < length ds" using new(2) by simp_all
    show "map n_id new ! i \<noteq> map n_id new ! j"
    proof
      assume "map n_id new ! i = map n_id new ! j"
      with ij new(2) have "n_id (new ! i) = n_id (new ! j)" by simp
      with ids ij have "''node-'' @ showInt (clock i) @ ''-'' @ showNat i
                      = ''node-'' @ showInt (clock j) @ ''-'' @ showNat j" by simp
      then have "i = j" by (rule node_id_inj)
      with \<open>i \<noteq> j\<close> show False by simp
    qed
  qed
  have d2: "distinct (map (\<lambda>n. (n_x n, n_y n)) new)"
    unfolding distinct_conv_nth
  proof (intro allI impI)
    fix i j assume "i < length (map (\<lambda>n. (n_x n, n_y n)) new)"
      "j < length (map (\<lambda>n. (n_x n, n_y n)) new)" "i \<noteq> j"
    then have ij: "i < length ds" "j < length ds" using new(2) by simp_all
    show "map (\<lambda>n. (n_x n, n_y n)) new ! i \<noteq> map (\<lambda>n. (n_x n, n_y n)) new ! j"
    proof
      assume "map (\<lambda>n. (n_x n, n_y n)) new ! i = map (\<lambda>n. (n_x n, n_y n)) new ! j"
      with ij new(2) have "n_x (new ! i) = n_x (new ! j)" by simp
      with pos ij have "100 + real i * 250 = 100 + real j * 250" by simp
      then have "i = j" by simp
      with \<open>i \<noteq> j\<close> show False by simp
    qed
  qed
  from new(1,2) pos d1 d2 show ?thesis by (auto simp: handleSend_def)
qed

theorem handleSend_batch_witness:
  "getProp demoParsed ''nodes'' = Inr (JArr demoBatch)
   \<and> length demoBatch = 3
   \<and> length (nodes (handleSend demoClock demoParsed demoConnected))
       = length (nodes demoConnected) + 3
   \<and> connections (handleSend demoClock demoParsed demoConnected) = [demoConnAB]
   \<and> map (\<lambda>n. (n_id n, n_x n, n_y n)) (nodes (handleSend demoClock demoParsed initState))
       = [(idA, 100, 100), (idB, 350, 200), (idC, 600, 100)]"
proof -
  have l: "length demoBatch = 3" by (simp add: demoBatch_def)
  from handleSend_batch [OF demoBatch_ok, of demoClock demoConnected] l
  have "length (nodes (handleSend demoClock demoParsed demoConnected))
          = length (nodes demoConnected) + 3
        \<and> connections (handleSend demoClock demoParsed demoConnected) = connections demoConnected"
    by auto
  moreover have "map (\<lambda>n. (n_id n, n_x n, n_y n)) (nodes (handleSend demoClock demoParsed initState))
       = [(idA, 100, 100), (idB, 350, 200), (idC, 600, 100)]"
    using demoInjected_eval by (simp add: demoInjected_def)
  ultimately show ?thesis using l demoBatch_ok(1) by (simp add: demoConnected_fields)
qed

text \<open>
  Claim C7 says that a pointer-up commits no connection when the node the pending draw
  started from has been deleted in the meantime.  \<^verbatim>\<open>handlePinMouseUp\<close> never consults the
  node collection and \<^verbatim>\<open>deleteNode\<close> leaves the pending draw in place: in the session
  below the first node is deleted while the draw from its output pin is pending, and the
  pointer-up over the input pin of the second node then stores a connection whose source is
  the deleted node.
\<close>

theorem pending_draw_survives_delete:
  "reachable demoDangling
   \<and> map n_id (nodes demoDeleted) = [idB, idC]
   \<and> connections demoDeleted = []
   \<and> map n_id (nodes demoDangling) = [idB, idC]
   \<and> connections demoDangling = [demoConnAB]
   \<and> fromNodeId demoConnAB = idA"
proof -
  have "reachable demoDangling"
    unfolding demoDangling_def demoDeleted_def by (intro reach_step demo_reachable)
  moreover have d: "map n_id (nodes demoDeleted) = [idB, idC]" "connections demoDeleted = []"
    "drawingConnection demoDeleted = drawingConnection demoPendingOut"
    by (simp_all add: demoDeleted_def deleteNode_def demoPendingOut_fields demoInjected_eval
        demo_ids_distinct)
  moreover have "nodes demoDangling = nodes demoDeleted"
    by (simp add: demoDangling_def handlePinMouseUp_rest)
  moreover have "connections demoDangling = [demoConnAB]"
    by (simp add: demoDangling_def handlePinMouseUp_def d demoPendingOut_fields Let_def
        newConnection_def demo_ids_distinct demoConnAB_def showInt_def showNat.simps digitChar_def)
  moreover have "fromNodeId demoConnAB = idA" by (simp add: demoConnAB_def)
  ultimately show ?thesis by simp
qed

text \<open>
  Claim C8 says that every pointer-up ends a node drag.  A pointer-up over a pin glyph
  runs \<^verbatim>\<open>handlePinMouseUp\<close> alone, which returns at once when no draw is pending: in the
  session below the first node is being dragged, the pointer is released over the input pin
  of the second node, the state is unchanged (the node is still selected, the offset still
  captured), and the next pointer-move moves the node again.  A pointer-up that reaches
  the canvas handler clears the selection.
\<close>

theorem node_drag_survives_pin_release:
  "reachable demoDragging
   \<and> selectedNode demoDragging = Some idA
   \<and> dragOffset demoDragging = Some (50, 20)
   \<and> drawingConnection demoDragging = None
   \<and> step (PinMouseUp 1700000005000 idB ''In'' True) demoDragging = demoDragging
   \<and> selectedNode (step MouseUp demoDragging) = None
   \<and> map (\<lambda>n. (n_x n, n_y n)) (nodes demoDragging) = [(362, 246), (350, 200), (600, 100)]
   \<and> map (\<lambda>n. (n_x n, n_y n))
        (nodes (step (MouseMove 500 300 (Some (0, 0)))
                  (step (PinMouseUp 1700000005000 idB ''In'' True) demoDragging)))
       = [(450, 280), (350, 200), (600, 100)]"
proof -
  have r: "reachable demoDragging"
    unfolding demoDragging_def by (intro reach_step demo_reachable)
  have f: "selectedNode demoDragging = Some idA" "dragOffset demoDragging = Some (50, 20)"
    "drawingConnection demoDragging = None"
    "map (\<lambda>n. (n_x n, n_y n)) (nodes demoDragging) = [(362, 246), (350, 200), (600, 100)]"
    "map n_id (nodes demoDragging) = [idA, idB, idC]"
    by (simp_all add: demoDragging_def handleMouseMove_def handleNodeMouseDown_def
        demoInjected_eval demo_ids_distinct idA_nonempty)
  have p: "step (PinMouseUp 1700000005000 idB ''In'' True) demoDragging = demoDragging"
    by (simp add: handlePinMouseUp_def f)
  have u: "selectedNode (step MouseUp demoDragging) = None" by (simp add: handleMouseUp_def)
  have m: "map (\<lambda>n. (n_x n, n_y n))
        (nodes (step (MouseMove 500 300 (Some (0, 0)))
                  (step (PinMouseUp 1700000005000 idB ''In'' True) demoDragging)))
       = [(450, 280), (350, 200), (600, 100)]"
    unfolding p
    by (simp add: demoDragging_def handleMouseMove_def handleNodeMouseDown_def
        demoInjected_eval demo_ids_distinct idA_nonempty)
  from r f p u m show ?thesis by simp
qed


text \<open>
  Claim C10.  For the descriptor at index \<open>idx\<close> of an injected batch without \<^verbatim>\<open>null\<close>
  entries, the new node copies the descriptor's \<^verbatim>\<open>name\<close>, takes the descriptor's \<^verbatim>\<open>type\<close>
  when it is truthy and \<^verbatim>\<open>'function'\<close> otherwise, and takes \<^verbatim>\<open>inputs\<close> and \<^verbatim>\<open>outputs\<close>
  when they are truthy and the empty list otherwise; a field missing from the descriptor
  reads as \<^verbatim>\<open>undefined\<close>, which is falsy.
\<close>

theorem handleSend_defaults:
  assumes "getProp parsed ''nodes'' = Inr (JArr ds)"
    and "JNull \<notin> set ds" and "JUndefined \<notin> set ds"
    and "idx < length ds"
  shows "\<exists>nm ty ins outs.
           getProp (ds ! idx) ''name'' = Inr nm \<and> getProp (ds ! idx) ''type'' = Inr ty \<and>
           getProp (ds ! idx) ''inputs'' = Inr ins \<and> getProp (ds ! idx) ''outputs'' = Inr outs \<and>
           n_name (nodes (handleSend clock parsed s) ! (length (nodes s) + idx)) = nm \<and>
           n_type (nodes (handleSend clock parsed s) ! (length (nodes s) + idx))
             = (if truthy ty then ty else JStr ''function'') \<and>
           n_inputs (nodes (handleSend clock parsed s) ! (length (nodes s) + idx))
             = (if truthy ins then ins else JArr []) \<and>
           n_outputs (nodes (handleSend clock parsed s) ! (length (nodes s) + idx))
             = (if truthy outs then outs else JArr []) \<and>
           (\<forall>kvs. ds ! idx = JObj kvs \<longrightarrow>
              (''type'' \<notin> fst ` set kvs \<longrightarrow> ty = JUndefined) \<and>
              (''inputs'' \<notin> fst ` set kvs \<longrightarrow> ins = JUndefined) \<and>
              (''outputs'' \<notin> fst ` set kvs \<longrightarrow> outs = JUndefined))"
proof -
  from injectParsed_batch [OF assms(1-3), of clock "nodes s"] obtain new where
    new: "injectParsed clock parsed (nodes s) = nodes s @ new" "length new = length ds"
      "\<forall>j < length ds. mkNode clock (ds ! j) j = Inr (new ! j)" by blast
  from assms(4) new(1,2) have nth: "nodes (handleSend clock parsed s) ! (length (nodes s) + idx) = new ! idx"
    by (simp add: handleSend_def nth_append)
  from assms(2-4) have nn: "ds ! idx \<noteq> JNull" "ds ! idx \<noteq> JUndefined"
    by (metis nth_mem)+
  from mkNode_Inr [OF nn, of clock idx] obtain nm ty ins outs where
    g: "getProp (ds ! idx) ''name'' = Inr nm" "getProp (ds ! idx) ''type'' = Inr ty"
       "getProp (ds ! idx) ''inputs'' = Inr ins" "getProp (ds ! idx) ''outputs'' = Inr outs"
    and mk: "mkNode clock (ds ! idx) idx =
             Inr \<lparr> n_id = ''node-'' @ showInt (clock idx) @ ''-'' @ showNat idx,
                   n_name = nm,
                   n_type = (if truthy ty then ty else JStr ''function''),
                   n_x = 100 + real idx * 250,
                   n_y = 100 + real (idx mod 2) * 100,
                   n_inputs = (if truthy ins then ins else JArr []),
                   n_outputs = (if truthy outs then outs else JArr []) \<rparr>"
    by blast
  from new(3) assms(4) mk have eq: "new ! idx =
      \<lparr> n_id = ''node-'' @ showInt (clock idx) @ ''-'' @ showNat idx,
        n_name = nm,
        n_type = (if truthy ty then ty else JStr ''function''),
        n_x = 100 + real idx * 250,
        n_y = 100 + real (idx mod 2) * 100,
        n_inputs = (if truthy ins then ins else JArr []),
        n_outputs = (if truthy outs then outs else JArr []) \<rparr>" by simp
  have miss: "\<forall>kvs. ds ! idx = JObj kvs \<longrightarrow>
              (''type'' \<notin> fst ` set kvs \<longrightarrow> ty = JUndefined) \<and>
              (''inputs'' \<notin> fst ` set kvs \<longrightarrow> ins = JUndefined) \<and>
              (''outputs'' \<notin> fst ` set kvs \<longrightarrow> outs = JUndefined)"
    using g getProp_missing by (metis sum.inject(2))
  show ?thesis
    apply (rule exI [of _ nm], rule exI [of _ ty], rule exI [of _ ins], rule exI [of _ outs])
    using g miss by (simp add: nth eq)
qed

theorem handleSend_defaults_witness:
  "n_name (nodes (handleSend demoClock demoParsed initState) ! 2) = JStr ''Branch''
   \<and> n_type (nodes (handleSend demoClock demoParsed initState) ! 2) = JStr ''function''
   \<and> n_inputs (nodes (handleSend demoClock demoParsed initState) ! 2) = JArr []
   \<and> n_outputs (nodes (handleSend demoClock demoParsed initState) ! 2)
       = JArr [JStr ''True'', JStr ''False'']"
proof -
  have i: "2 < length demoBatch" by (simp add: demoBatch_def)
  have d: "demoBatch ! 2 = JObj [(''name'', JStr ''Branch''), (''type'', JStr []),
            (''outputs'', JArr [JStr ''True'', JStr ''False''])]"
    by (simp add: demoBatch_def)
  have e: "length (nodes initState) + 2 = 2" by (simp add: initState_def)
  from handleSend_defaults [OF demoBatch_ok i, of demoClock initState]
  obtain nm ty ins outs where
    g: "getProp (demoBatch ! 2) ''name'' = Inr nm" "getProp (demoBatch ! 2) ''type'' = Inr ty"
      "getProp (demoBatch ! 2) ''inputs'' = Inr ins" "getProp (demoBatch ! 2) ''outputs'' = Inr outs"
    and f: "n_name (nodes (handleSend demoClock demoParsed initState) ! 2) = nm"
      "n_type (nodes (handleSend demoClock demoParsed initState) ! 2)
         = (if truthy ty then ty else JStr ''function'')"
      "n_inputs (nodes (handleSend demoClock demoParsed initState) ! 2)
         = (if truthy ins then ins else JArr [])"
      "n_outputs (nodes (handleSend demoClock demoParsed initState) ! 2)
         = (if truthy outs then outs else JArr [])"
    unfolding e by blast
  from g have "nm = JStr ''Branch''" "ty = JStr []" "ins = JUndefined"
    "outs = JArr [JStr ''True'', JStr ''False'']"
    unfolding d by simp_all
  with f show ?thesis by simp
qed

end
